theory Spec2Isabelle
  imports Main "HOL-Library.Char_ord" "HOL-Library.List_Lexorder" "HOL-Library.Product_Lexorder"
begin

section \<open>Shared vocabulary\<close>

text \<open>
  The passes of \<^verbatim>\<open>shrinkray/passes/genericlanguages.py\<close> work on Python \<^verbatim>\<open>bytes\<close>
  (and, through \<^verbatim>\<open>AnyStr\<close>, on \<^verbatim>\<open>str\<close>). Both are modelled as lists of
  characters; a \<^typ>\<open>char\<close> is one byte, ordered by its value, and lists are ordered
  lexicographically, as Python orders \<^verbatim>\<open>bytes\<close>.
\<close>

type_synonym bytes = string

text \<open>The exceptions that the module raises or lets through.\<close>

datatype error =
  ParseError | AssertionError | SyntaxError | ZeroDivisionError | OverflowError
  | ValueError | UnicodeDecodeError

text \<open>
  Python's slice \<^verbatim>\<open>xs[a:b]\<close> for indices \<open>0 \<le> a\<close> and \<open>0 \<le> b\<close>: empty when
  \<open>b \<le> a\<close>, clipped at the end of \<open>xs\<close>. Every slice of the module has such indices.
\<close>

definition slice :: "'a list \<Rightarrow> nat \<Rightarrow> nat \<Rightarrow> 'a list" where
  "slice xs a b = take (b - a) (drop a xs)"

definition startswith :: "'a list \<Rightarrow> 'a list \<Rightarrow> bool" where
  "startswith xs p = (take (length p) xs = p)"

definition endswith :: "'a list \<Rightarrow> 'a list \<Rightarrow> bool" where
  "endswith xs s = (length s \<le> length xs \<and> drop (length xs - length s) xs = s)"

text \<open>The bytes \<^verbatim>\<open>0\<close> to \<^verbatim>\<open>9\<close>, the class \<^verbatim>\<open>[0-9]\<close> of the module's patterns.\<close>

definition is_digit :: "char \<Rightarrow> bool" where
  "is_digit c = (CHR ''0'' \<le> c \<and> c \<le> CHR ''9'')"

section \<open>The Substring format\<close>

text \<open>
  \<^verbatim>\<open>class Substring(Format[AnyStr, AnyStr])\<close> with its two fields; \<^verbatim>\<open>parse\<close> raises
  \<^verbatim>\<open>ParseError\<close> unless the input starts with the prefix and ends with the suffix.
\<close>

record 'a Substring =
  prefix :: "'a list"
  suffix :: "'a list"

definition Substring_parse :: "'a Substring \<Rightarrow> 'a list \<Rightarrow> error + 'a list" where
  "Substring_parse self input =
     (if startswith input (prefix self) \<and> endswith input (suffix self)
      then Inr (slice input (length (prefix self)) (length input - length (suffix self)))
      else Inl ParseError)"

definition Substring_dumps :: "'a Substring \<Rightarrow> 'a list \<Rightarrow> 'a list" where
  "Substring_dumps self input = prefix self @ input @ suffix self"

text \<open>\<^verbatim>\<open>dumps(parse(x))\<close>, with the \<^verbatim>\<open>ParseError\<close> of \<^verbatim>\<open>parse\<close> passed on.\<close>

definition Substring_roundtrip :: "'a Substring \<Rightarrow> 'a list \<Rightarrow> error + 'a list" where
  "Substring_roundtrip self x =
     (case Substring_parse self x of Inl e \<Rightarrow> Inl e | Inr y \<Rightarrow> Inr (Substring_dumps self y))"

section \<open>The Candidate Session\<close>

text \<open>
  Modelled from the spec: the Candidate Session (\<^verbatim>\<open>ReductionProblem\<close> and
  \<^verbatim>\<open>BasicReductionProblem\<close> of \<^verbatim>\<open>shrinkray/problem.py\<close>, which is not among the
  sources). The spec gives it one current candidate and \<^verbatim>\<open>proposeCandidate\<close>, the
  source's \<^verbatim>\<open>problem.is_interesting\<close>: it returns whether the candidate is interesting,
  and if so the candidate atomically becomes the current one; a rejected candidate leaves
  the current one unchanged. The interestingness oracle is a function of the candidate.
  The field \<open>probes\<close> is a log of the oracle's answers, in order; the session does not
  read it.
\<close>

record 'a session =
  current_test_case :: 'a
  probes :: "('a \<times> bool) list"

definition is_interesting :: "('a \<Rightarrow> bool) \<Rightarrow> 'a \<Rightarrow> 'a session \<Rightarrow> bool \<times> 'a session" where
  "is_interesting oracle c problem =
     (oracle c,
      problem\<lparr>current_test_case := (if oracle c then c else current_test_case problem),
              probes := probes problem @ [(c, oracle c)]\<rparr>)"

definition new_session :: "'a \<Rightarrow> 'a session" where
  "new_session c = \<lparr>current_test_case = c, probes = []\<rparr>"

section \<open>The numeric binary-search shrinker\<close>

text \<open>
  One round of the loop of \<^verbatim>\<open>reduce_integer\<close>: the probe of \<open>mid\<close>, the probe of
  \<open>hi - 1\<close> and the probe of \<open>lo + 1\<close>. The result says whether the function returns
  (\<open>lo + 1\<close> was interesting) and gives \<open>lo\<close>, \<open>hi\<close> and the session after the round.
  Python's \<^verbatim>\<open>//\<close> rounds down, as \<open>div\<close> on \<^typ>\<open>int\<close> does.
\<close>

definition reduce_integer_round ::
  "(int \<Rightarrow> bool) \<Rightarrow> int \<Rightarrow> int \<Rightarrow> int session \<Rightarrow> bool \<times> int \<times> int \<times> int session" where
  "reduce_integer_round oracle lo hi problem =
     (let mid = (lo + hi) div 2;
          (r1, p1) = is_interesting oracle mid problem;
          hi1 = (if r1 then mid else hi);
          lo1 = (if r1 then lo else mid);
          (r2, p2) = is_interesting oracle (hi1 - 1) p1;
          hi2 = (if r2 then hi1 - 1 else hi1);
          (r3, p3) = is_interesting oracle (lo1 + 1) p2
      in if r3 then (True, lo1, hi2, p3) else (False, lo1 + 1, hi2, p3))"

text \<open>\<^verbatim>\<open>while lo + 1 < hi\<close>\<close>

function reduce_integer_loop ::
  "(int \<Rightarrow> bool) \<Rightarrow> int \<Rightarrow> int \<Rightarrow> int session \<Rightarrow> int session" where
  "reduce_integer_loop oracle lo hi problem =
     (if lo + 1 < hi then
        (case reduce_integer_round oracle lo hi problem of
           (True, lo', hi', problem') \<Rightarrow> problem'
         | (False, lo', hi', problem') \<Rightarrow> reduce_integer_loop oracle lo' hi' problem')
      else problem)"
  by pat_completeness auto
termination
  by (relation "measure (\<lambda>(oracle, lo, hi, problem). nat (hi - lo))")
    (auto simp: reduce_integer_round_def is_interesting_def Let_def split: if_splits)

declare reduce_integer_loop.simps [simp del]

text \<open>
  \<^verbatim>\<open>reduce_integer\<close>: the assertion on the current test case, the probe of \<open>0\<close>, and
  the loop from \<open>lo = 0\<close> and \<open>hi = problem.current_test_case\<close>.
\<close>

definition reduce_integer :: "(int \<Rightarrow> bool) \<Rightarrow> int session \<Rightarrow> error + int session" where
  "reduce_integer oracle problem =
     (if \<not> current_test_case problem \<ge> 0 then Inl AssertionError
      else
        (let (r0, p0) = is_interesting oracle 0 problem
         in if r0 then Inr p0
            else Inr (reduce_integer_loop oracle 0 (current_test_case p0) p0)))"

text \<open>
  What holds at the head of the loop, for the initial candidate \<open>n\<close>: \<open>lo\<close> has been
  probed and is not interesting, \<open>hi\<close> is the session's current test case, and every
  probe so far was at most \<open>n\<close>.
\<close>

definition shrink_inv :: "(int \<Rightarrow> bool) \<Rightarrow> int \<Rightarrow> int \<Rightarrow> int \<Rightarrow> int session \<Rightarrow> bool" where
  "shrink_inv oracle n lo hi p =
     (0 \<le> lo \<and> lo \<le> hi \<and> hi \<le> n \<and> \<not> oracle lo \<and> (lo, False) \<in> set (probes p)
      \<and> current_test_case p = hi
      \<and> (lo = hi \<longrightarrow> hi = 0 \<or> (hi - 1, False) \<in> set (probes p))
      \<and> (\<forall>x. (x, True) \<in> set (probes p) \<longrightarrow> x \<le> n))"

text \<open>
  What the claim says of the session that \<^verbatim>\<open>reduce_integer\<close> leaves: no accepted value is
  larger than \<open>n\<close>, and the final value is \<open>0\<close> or has a predecessor that was probed and
  found not interesting.
\<close>

definition shrink_result :: "int \<Rightarrow> int session \<Rightarrow> bool" where
  "shrink_result n p =
     (current_test_case p \<le> n
      \<and> (\<forall>x. (x, True) \<in> set (probes p) \<longrightarrow> x \<le> n)
      \<and> (current_test_case p = 0 \<or> (current_test_case p - 1, False) \<in> set (probes p)))"

section \<open>The integer format\<close>

text \<open>
  \<^verbatim>\<open>IntegerFormat.parse\<close> is \<^verbatim>\<open>int(input.decode("ascii"))\<close>. Decoding fails on a byte
  above \<open>127\<close>. Python's \<^verbatim>\<open>int\<close> of an ASCII string, in base ten: whitespace (tab, line
  feed, vertical tab, form feed, carriage return, space) at both ends is dropped, then
  comes an optional sign, then digits with single underscores allowed between
  two digits, and nothing else. Interpreters since 3.11 refuse to convert between strings
  and integers of more than \<^verbatim>\<open>sys.get_int_max_str_digits()\<close> digits with a
  \<^verbatim>\<open>ValueError\<close>; the setting is the parameter \<open>max_str_digits\<close>, which is \<open>4300\<close> unless
  the user changes it and \<open>0\<close> where there is no limit.
\<close>

definition too_many_digits :: "nat \<Rightarrow> nat \<Rightarrow> bool" where
  "too_many_digits max_str_digits n = (max_str_digits > 0 \<and> n > max_str_digits)"





definition digit_value :: "char \<Rightarrow> nat" where
  "digit_value c = of_char c - 48"

definition decimal_value :: "string \<Rightarrow> nat" where
  "decimal_value ds = foldl (\<lambda>a c. 10 * a + digit_value c) 0 ds"


text \<open>\<^verbatim>\<open>str\<close> of an integer: the decimal digits, without leading zeros, after the sign.\<close>

definition digit_char :: "nat \<Rightarrow> char" where
  "digit_char d = char_of (48 + d)"

function digits_of :: "nat \<Rightarrow> string" where
  "digits_of n = (if n < 10 then [digit_char n] else digits_of (n div 10) @ [digit_char (n mod 10)])"
  by pat_completeness auto
termination
  by (relation "measure id") auto

declare digits_of.simps [simp del]

definition py_str :: "nat \<Rightarrow> int \<Rightarrow> error + string" where
  "py_str max_str_digits n =
     (let ds = digits_of (nat \<bar>n\<bar>)
      in if too_many_digits max_str_digits (length ds) then Inl ValueError
         else Inr (if n < 0 then CHR ''-'' # ds else ds))"




section \<open>Expression folding\<close>

text \<open>
  The pattern of \<^verbatim>\<open>combine_expressions\<close> is \<^verbatim>\<open>[0-9]+ [*+-/] [0-9]+\<close>: digits, a space, one
  byte of the class, a space, digits. In the class \<^verbatim>\<open>+-/\<close> is a range, so the class holds
  the bytes \<^verbatim>\<open>*\<close>, \<^verbatim>\<open>+\<close>, \<^verbatim>\<open>,\<close>, \<^verbatim>\<open>-\<close>, \<^verbatim>\<open>.\<close> and \<^verbatim>\<open>/\<close>. The sub-pass is run on a
  session whose current test case is a region, that is, a match of the pattern;
  \<open>split_expression\<close> takes such a match apart and is \<open>None\<close> on other strings.
\<close>

definition is_operator :: "char \<Rightarrow> bool" where
  "is_operator c = (c = CHR ''*'' \<or> (CHR ''+'' \<le> c \<and> c \<le> CHR ''/''))"

definition split_expression :: "bytes \<Rightarrow> (bytes \<times> char \<times> bytes) option" where
  "split_expression x =
     (let l = takeWhile is_digit x
      in case dropWhile is_digit x of
           sp1 # op # sp2 # r \<Rightarrow>
             if l \<noteq> [] \<and> sp1 = CHR '' '' \<and> is_operator op \<and> sp2 = CHR '' ''
                \<and> r \<noteq> [] \<and> list_all is_digit r
             then Some (l, op, r) else None
         | _ \<Rightarrow> None)"

text \<open>
  Python's \<^verbatim>\<open>eval\<close> on a match. A decimal literal is a non-zero digit followed by digits,
  or zeros only; any other run of digits is a \<^verbatim>\<open>SyntaxError\<close>, and so is a literal with
  more digits than the interpreter converts. The operators \<^verbatim>\<open>*\<close>,
  \<^verbatim>\<open>+\<close> and \<^verbatim>\<open>-\<close> give an integer, \<^verbatim>\<open>,\<close> gives a pair, \<^verbatim>\<open>.\<close> before a number is a
  \<^verbatim>\<open>SyntaxError\<close>, and \<^verbatim>\<open>/\<close> is the division of floating-point numbers, which raises
  \<^verbatim>\<open>ZeroDivisionError\<close> on a zero divisor. Floating-point numbers are outside this model:
  \<open>true_div a b\<close> is a parameter that stands for \<^verbatim>\<open>str(a / b)\<close> with \<open>b \<noteq> 0\<close>, and is
  \<open>None\<close> where the quotient is too large for a float (\<^verbatim>\<open>OverflowError\<close>).
\<close>

datatype py_value = IntValue int | FloatValue bytes | TupleValue int int

definition literal_ok :: "bytes \<Rightarrow> bool" where
  "literal_ok ds = (hd ds \<noteq> CHR ''0'' \<or> list_all (\<lambda>c. c = CHR ''0'') ds)"

definition py_eval ::
  "nat \<Rightarrow> (int \<Rightarrow> int \<Rightarrow> bytes option) \<Rightarrow> bytes \<times> char \<times> bytes \<Rightarrow> error + py_value" where
  "py_eval max_str_digits true_div m =
     (case m of (l, op, r) \<Rightarrow>
        if \<not> literal_ok l \<or> \<not> literal_ok r then Inl SyntaxError
        else if too_many_digits max_str_digits (length l)
                \<or> too_many_digits max_str_digits (length r) then Inl SyntaxError
        else
          (let a = int (decimal_value l); b = int (decimal_value r)
           in if op = CHR ''*'' then Inr (IntValue (a * b))
              else if op = CHR ''+'' then Inr (IntValue (a + b))
              else if op = CHR ''-'' then Inr (IntValue (a - b))
              else if op = CHR '','' then Inr (TupleValue a b)
              else if op = CHR ''/'' then
                (if b = 0 then Inl ZeroDivisionError
                 else (case true_div a b of
                         None \<Rightarrow> Inl OverflowError
                       | Some s \<Rightarrow> Inr (FloatValue s)))
              else Inl SyntaxError))"

definition py_str_value :: "nat \<Rightarrow> py_value \<Rightarrow> error + bytes" where
  "py_str_value max_str_digits v =
     (case v of
        IntValue n \<Rightarrow> py_str max_str_digits n
      | FloatValue s \<Rightarrow> Inr s
      | TupleValue a b \<Rightarrow>
          (case py_str max_str_digits a of
             Inl e \<Rightarrow> Inl e
           | Inr sa \<Rightarrow>
               (case py_str max_str_digits b of
                  Inl e \<Rightarrow> Inl e
                | Inr sb \<Rightarrow> Inr (''('' @ sa @ '', '' @ sb @ '')''))))"

text \<open>The exceptions that \<^verbatim>\<open>except ArithmeticError\<close> catches.\<close>

definition is_ArithmeticError :: "error \<Rightarrow> bool" where
  "is_ArithmeticError e = (e = ZeroDivisionError \<or> e = OverflowError)"

text \<open>
  \<^verbatim>\<open>combine_expressions\<close>: \<^verbatim>\<open>str(eval(...))\<close> is proposed to the session; an
  \<^verbatim>\<open>ArithmeticError\<close> is swallowed, any other exception leaves the pass.
\<close>

definition combine_expressions ::
  "nat \<Rightarrow> (int \<Rightarrow> int \<Rightarrow> bytes option) \<Rightarrow> (bytes \<Rightarrow> bool) \<Rightarrow> bytes session
     \<Rightarrow> (error + bytes session) option" where
  "combine_expressions max_str_digits true_div oracle problem =
     (case split_expression (current_test_case problem) of
        None \<Rightarrow> None
      | Some m \<Rightarrow>
          Some (case (case py_eval max_str_digits true_div m of
                        Inl e \<Rightarrow> Inl e
                      | Inr v \<Rightarrow> py_str_value max_str_digits v) of
                  Inl e \<Rightarrow> if is_ArithmeticError e then Inr problem else Inl e
                | Inr s \<Rightarrow> Inr (snd (is_interesting oracle s problem))))"

section \<open>Token renaming\<close>

text \<open>\<^verbatim>\<open>def shortlex(s): return (len(s), s)\<close>; Python compares the pairs lexicographically.\<close>

definition shortlex :: "bytes \<Rightarrow> nat \<times> bytes" where
  "shortlex s = (length s, s)"

text \<open>
  The pattern \<^verbatim>\<open>re.compile(rb"\b" + t + rb"\b")\<close> for a token \<open>t\<close>. The tokens come from
  \<^verbatim>\<open>IDENTIFIER\<close> and the replacements are tokens or single letters, so both are non-empty
  strings of word bytes (ASCII letters, digits and the underscore): \<open>t\<close> stands for itself
  in the pattern, and \<open>r\<close> stands for itself as the replacement of \<^verbatim>\<open>pattern.sub\<close>. This is
  the part of Python's \<^verbatim>\<open>re\<close> that is modelled: \<^verbatim>\<open>\b\<close> holds between two neighbouring
  positions when exactly one of them holds a word byte, the ends of the string counting as
  non-word.
\<close>

definition is_word_byte :: "char \<Rightarrow> bool" where
  "is_word_byte c =
     ((CHR ''a'' \<le> c \<and> c \<le> CHR ''z'') \<or> (CHR ''A'' \<le> c \<and> c \<le> CHR ''Z'')
      \<or> is_digit c \<or> c = CHR ''_'')"

definition word_boundary :: "char option \<Rightarrow> char option \<Rightarrow> bool" where
  "word_boundary left right =
     ((case left of None \<Rightarrow> False | Some c \<Rightarrow> is_word_byte c)
        \<noteq> (case right of None \<Rightarrow> False | Some c \<Rightarrow> is_word_byte c))"

definition next_byte :: "bytes \<Rightarrow> char option" where
  "next_byte xs = (case xs of [] \<Rightarrow> None | c # _ \<Rightarrow> Some c)"

text \<open>
  The pattern matches at the head of \<open>xs\<close>, the rest of the source from some position on,
  where \<open>prev\<close> is the byte of the source before that position.
\<close>

definition matches_here :: "bytes \<Rightarrow> char option \<Rightarrow> bytes \<Rightarrow> bool" where
  "matches_here t prev xs =
     (t \<noteq> [] \<and> startswith xs t
      \<and> word_boundary prev (Some (hd t))
      \<and> word_boundary (Some (last t)) (next_byte (drop (length t) xs)))"

text \<open>\<^verbatim>\<open>pattern.search(source)\<close> as a truth value: is there a match at some position?\<close>

fun word_search :: "bytes \<Rightarrow> char option \<Rightarrow> bytes \<Rightarrow> bool" where
  "word_search t prev [] = False"
| "word_search t prev (c # cs) = (matches_here t prev (c # cs) \<or> word_search t (Some c) cs)"

text \<open>
  \<^verbatim>\<open>pattern.sub(r, source)\<close>: from left to right, every match is replaced by \<open>r\<close> and the
  scan goes on after the match; the other bytes are copied.
\<close>

function word_sub :: "bytes \<Rightarrow> bytes \<Rightarrow> char option \<Rightarrow> bytes \<Rightarrow> bytes" where
  "word_sub t r prev xs =
     (if matches_here t prev xs
      then r @ word_sub t r (Some (last t)) (drop (length t) xs)
      else (case xs of [] \<Rightarrow> [] | c # cs \<Rightarrow> c # word_sub t r (Some c) cs))"
  by pat_completeness auto
termination
proof (relation "measure (\<lambda>(t, r, prev, xs). length xs)")
  fix t r :: bytes and prev :: "char option" and xs :: bytes
  assume "matches_here t prev xs"
  then have "t \<noteq> []" and "take (length t) xs = t"
    by (simp_all add: matches_here_def startswith_def)
  then have "xs \<noteq> []" by auto
  with \<open>t \<noteq> []\<close> show "((t, r, Some (last t), drop (length t) xs), t, r, prev, xs)
      \<in> measure (\<lambda>(t, r, prev, xs). length xs)"
    by simp
qed auto

declare word_sub.simps [simp del]

text \<open>
  \<^verbatim>\<open>can_replace(r)\<close> for the token \<open>t\<close> and the \<open>source\<close> captured before the search:
  no call of the session unless \<open>r\<close> is below \<open>t\<close>, then the assertion and the call.
\<close>

definition can_replace ::
  "(bytes \<Rightarrow> bool) \<Rightarrow> bytes \<Rightarrow> bytes \<Rightarrow> bytes \<Rightarrow> bytes session \<Rightarrow> error + bool \<times> bytes session" where
  "can_replace oracle t source r problem =
     (if shortlex r \<ge> shortlex t then Inr (False, problem)
      else
        (let attempt = word_sub t r None source
         in if \<not> attempt \<noteq> source then Inl AssertionError
            else Inr (is_interesting oracle attempt problem)))"

text \<open>
  Modelled from the spec: \<^verbatim>\<open>problem.work.find_first_value\<close> (\<^verbatim>\<open>shrinkray/work.py\<close>, which
  is not among the sources). The spec's \<^verbatim>\<open>findFirstValue\<close> returns the first candidate, in
  the order given, for which the predicate holds, and signals not-found (here \<open>None\<close>) when
  there is none. An exception of the predicate is passed on.
\<close>

fun find_first_value ::
  "'a list \<Rightarrow> ('a \<Rightarrow> 's \<Rightarrow> error + bool \<times> 's) \<Rightarrow> 's \<Rightarrow> error + 'a option \<times> 's" where
  "find_first_value [] f st = Inr (None, st)"
| "find_first_value (x # xs) f st =
     (case f x st of
        Inl e \<Rightarrow> Inl e
      | Inr (True, st') \<Rightarrow> Inr (Some x, st')
      | Inr (False, st') \<Rightarrow> find_first_value xs f st')"

text \<open>
  The first letter of the alphabet that is not yet a replacement is added:
  \<^verbatim>\<open>for cc in char_type: c = bytes([cc]); if c not in replacements: replacements.add(c); break\<close>.
  The sets of the source are lists here; they are sorted before use.
\<close>

definition add_unused_letter :: "bytes \<Rightarrow> bytes list \<Rightarrow> bytes list" where
  "add_unused_letter char_type replacements =
     (case filter (\<lambda>cc. [cc] \<notin> set replacements) char_type of
        [] \<Rightarrow> replacements
      | cc # _ \<Rightarrow> replacements @ [[cc]])"

definition ascii_lowercase :: bytes where
  "ascii_lowercase = ''abcdefghijklmnopqrstuvwxyz''"

definition ascii_uppercase :: bytes where
  "ascii_uppercase = ''ABCDEFGHIJKLMNOPQRSTUVWXYZ''"

text \<open>
  The loop \<^verbatim>\<open>for t in targets\<close>: a token without a match in the current test case is
  skipped; \<^verbatim>\<open>NotFound\<close> is caught and the loop goes on.
\<close>

fun rename_targets ::
  "(bytes \<Rightarrow> bool) \<Rightarrow> bytes list \<Rightarrow> bytes list \<Rightarrow> bytes session \<Rightarrow> error + bytes session" where
  "rename_targets oracle replacements [] problem = Inr problem"
| "rename_targets oracle replacements (t # targets) problem =
     (let source = current_test_case problem
      in if \<not> word_search t None source
         then rename_targets oracle replacements targets problem
         else
           (case find_first_value replacements (can_replace oracle t source) problem of
              Inl e \<Rightarrow> Inl e
            | Inr (found, problem') \<Rightarrow> rename_targets oracle replacements targets problem'))"

text \<open>
  \<^verbatim>\<open>normalize_identifiers\<close>. The matches of \<^verbatim>\<open>IDENTIFIER.finditer\<close> in the current test
  case are a parameter, \<open>finditer\<close>.
\<close>

definition normalize_identifiers ::
  "(bytes \<Rightarrow> bytes list) \<Rightarrow> (bytes \<Rightarrow> bool) \<Rightarrow> bytes session \<Rightarrow> error + bytes session" where
  "normalize_identifiers finditer oracle problem =
     (let identifiers = remdups (finditer (current_test_case problem));
          replacements = add_unused_letter ascii_uppercase
                           (add_unused_letter ascii_lowercase identifiers);
          replacements = sort_key shortlex (remdups replacements);
          targets = rev (sort_key shortlex identifiers)
      in rename_targets oracle replacements targets problem)"



section \<open>The region-parallel pass engine\<close>

subsection \<open>Collecting the regions\<close>

text \<open>
  \<^verbatim>\<open>pattern.search(string, pos)\<close> belongs to Python's \<^verbatim>\<open>re\<close>; the engine is written
  for any pattern, so the search is a parameter: \<open>search tc i\<close> is the span of the
  leftmost match of the pattern in \<open>tc\<close> that starts at or after \<open>i\<close>, if there is one.
\<close>

type_synonym region = "nat \<times> nat"

type_synonym searcher = "bytes \<Rightarrow> nat \<Rightarrow> region option"

text \<open>
  The loop at the head of \<^verbatim>\<open>reduction_pass\<close>:
  \<^verbatim>\<open>while i < len(tc): search = pattern.search(tc, i); if search is None: break;
  u, v = search.span(); matching_regions.append((u, v)); i = v\<close>.
  A run of the loop that never ends has the value \<open>None\<close>.
\<close>

partial_function (option) collect_regions ::
  "searcher \<Rightarrow> bytes \<Rightarrow> nat \<Rightarrow> region list \<Rightarrow> region list option" where
  "collect_regions search tc i matching_regions =
     (if i < length tc then
        (case search tc i of
           None \<Rightarrow> Some matching_regions
         | Some (u, v) \<Rightarrow> collect_regions search tc v (matching_regions @ [(u, v)]))
      else Some matching_regions)"

text \<open>
  What \<^verbatim>\<open>re\<close> promises of a span found from position \<open>i\<close>: it lies between \<open>i\<close>
  and the end of the string.
\<close>

definition span_ok :: "searcher \<Rightarrow> bytes \<Rightarrow> bool" where
  "span_ok search tc =
     (\<forall>i u v. search tc i = Some (u, v) \<longrightarrow> i \<le> u \<and> u \<le> v \<and> v \<le> length tc)"

text \<open>A pattern that never matches the empty string in \<open>tc\<close>.\<close>

definition nonempty_matches :: "searcher \<Rightarrow> bytes \<Rightarrow> bool" where
  "nonempty_matches search tc = (\<forall>i u v. search tc i = Some (u, v) \<longrightarrow> u < v)"

text \<open>
  Regions in the order of the scan: each one is what the search returned when resumed at
  the end of the one before (at \<open>i\<close> for the first).
\<close>

fun resumed :: "searcher \<Rightarrow> bytes \<Rightarrow> nat \<Rightarrow> region list \<Rightarrow> bool" where
  "resumed search tc i [] = True"
| "resumed search tc i ((u, v) # rs) = (search tc i = Some (u, v) \<and> resumed search tc v rs)"

text \<open>
  Regions in ascending order from position \<open>i\<close> on, inside a string of length \<open>n\<close>:
  each one starts at or after the end of the one before, so no two overlap.
\<close>

fun ascending :: "nat \<Rightarrow> nat \<Rightarrow> region list \<Rightarrow> bool" where
  "ascending n i [] = (i \<le> n)"
| "ascending n i ((u, v) # rs) = (i \<le> u \<and> u \<le> v \<and> ascending n v rs)"

text \<open>Two patterns, as \<^verbatim>\<open>re\<close> searches them: \<^verbatim>\<open>[0-9]+\<close> and \<^verbatim>\<open>[0-9]*\<close>.\<close>

definition search_digits :: searcher where
  "search_digits tc i =
     (case filter (\<lambda>j. is_digit (tc ! j)) [i..<length tc] of
        [] \<Rightarrow> None
      | u # _ \<Rightarrow> Some (u, u + length (takeWhile is_digit (drop u tc))))"

definition search_digits_star :: searcher where
  "search_digits_star tc i =
     (if i \<le> length tc then Some (i, i + length (takeWhile is_digit (drop i tc))) else None)"

subsection \<open>Reconstruction\<close>

text \<open>
  \<^verbatim>\<open>replace(i, s)\<close>: the parts are, for each region \<open>j\<close> in order, the bytes of
  \<open>initial\<close> from the end of the previous region to the start of this one and then the
  slot \<open>replacements[j]\<close> (or \<open>s\<close> when \<open>j = i\<close>), and at the end the rest of
  \<open>initial\<close>. The list \<open>replacements\<close> has one slot for each region throughout the pass
  (it is built from \<open>matching_regions\<close> and only ever updated at an index).
\<close>

fun replace_parts ::
  "bytes \<Rightarrow> bytes list \<Rightarrow> nat \<Rightarrow> bytes \<Rightarrow> nat \<Rightarrow> nat \<Rightarrow> region list \<Rightarrow> bytes list" where
  "replace_parts initial replacements i s j prev [] = [drop prev initial]"
| "replace_parts initial replacements i s j prev ((u, v) # rest) =
     slice initial prev u
       # (if j \<noteq> i then replacements ! j else s)
       # replace_parts initial replacements i s (j + 1) v rest"

definition replace :: "bytes \<Rightarrow> region list \<Rightarrow> bytes list \<Rightarrow> nat \<Rightarrow> bytes \<Rightarrow> bytes" where
  "replace initial matching_regions replacements i s =
     concat (replace_parts initial replacements i s 0 0 matching_regions)"

text \<open>
  The candidate assembled from the snapshot's bytes outside the regions and every slot's
  own value, with no slot overridden.
\<close>

fun assemble_parts :: "bytes \<Rightarrow> bytes list \<Rightarrow> nat \<Rightarrow> nat \<Rightarrow> region list \<Rightarrow> bytes list" where
  "assemble_parts initial slots j prev [] = [drop prev initial]"
| "assemble_parts initial slots j prev ((u, v) # rest) =
     slice initial prev u # slots ! j # assemble_parts initial slots (j + 1) v rest"

definition assemble :: "bytes \<Rightarrow> region list \<Rightarrow> bytes list \<Rightarrow> bytes" where
  "assemble initial matching_regions slots =
     concat (assemble_parts initial slots 0 0 matching_regions)"

text \<open>\<^verbatim>\<open>replacements = [initial[u:v] for u, v in matching_regions]\<close>\<close>

definition initial_replacements :: "bytes \<Rightarrow> region list \<Rightarrow> bytes list" where
  "initial_replacements initial matching_regions =
     map (\<lambda>(u, v). slice initial u v) matching_regions"

subsection \<open>The region tasks\<close>

text \<open>
  The tasks of the nursery are scheduled cooperatively: a task runs until it awaits. Inside
  \<^verbatim>\<open>is_interesting(s)\<close> of region \<open>i\<close> there are two suspension points, the
  \<^verbatim>\<open>trio.sleep(0.01)\<close> of the backoff loop and the call \<^verbatim>\<open>problem.is_interesting(attempt)\<close>.
  A task is therefore in one of three places: outside \<^verbatim>\<open>is_interesting\<close> (the sub-pass
  is between two proposals, or has finished), asleep in the backoff loop with its proposal
  \<open>s\<close>, or waiting for the session's answer with \<open>s\<close>, \<open>attempt\<close>, \<open>is_merging\<close>
  and \<open>retries\<close>. The sub-pass itself is any caller: it may propose any value whenever
  its task is outside \<^verbatim>\<open>is_interesting\<close> (one call for a region at a time).
\<close>

datatype task = Idle | Sleeping bytes | Probing bytes bytes bool nat

record pass_state =
  problem :: "bytes session"
  replacements :: "bytes list"
  current_merge_attempts :: int
  tasks :: "task list"
  returned :: "(nat \<times> bytes \<times> bool) list"

text \<open>
  What the scheduler can do next: the sub-pass of region \<open>i\<close> calls
  \<^verbatim>\<open>is_interesting(s)\<close>, the sleep of task \<open>i\<close> ends, or the session answers task \<open>i\<close>.
\<close>

datatype event = Propose nat bytes | Wake nat | Answer nat

text \<open>
  The top of \<^verbatim>\<open>while True\<close>: sleep while a merge of another task is in flight, else
  compute \<open>attempt\<close> and call the session.
\<close>

definition loop_head ::
  "bytes \<Rightarrow> region list \<Rightarrow> nat \<Rightarrow> bytes \<Rightarrow> bool \<Rightarrow> nat \<Rightarrow> pass_state \<Rightarrow> pass_state" where
  "loop_head initial matching_regions i s is_merging retries st =
     (if \<not> is_merging \<and> current_merge_attempts st > 0
      then st\<lparr>tasks := (tasks st)[i := Sleeping s]\<rparr>
      else st\<lparr>tasks := (tasks st)
             [i := Probing s (replace initial matching_regions (replacements st) i s)
                     is_merging retries]\<rparr>)"

text \<open>The \<^verbatim>\<open>finally\<close> block, with its assertion.\<close>

definition finally_block :: "bool \<Rightarrow> pass_state \<Rightarrow> error + pass_state" where
  "finally_block is_merging st =
     (if is_merging then
        (let st' = st\<lparr>current_merge_attempts := current_merge_attempts st - 1\<rparr>
         in if current_merge_attempts st' \<ge> 0 then Inr st' else Inl AssertionError)
      else Inr st)"

text \<open>\<^verbatim>\<open>return result\<close> through the \<^verbatim>\<open>finally\<close> block: the task leaves \<^verbatim>\<open>is_interesting\<close>.\<close>

definition return_result ::
  "nat \<Rightarrow> bytes \<Rightarrow> bool \<Rightarrow> bool \<Rightarrow> pass_state \<Rightarrow> error + pass_state" where
  "return_result i s is_merging result st =
     (case finally_block is_merging st of
        Inl e \<Rightarrow> Inl e
      | Inr st' \<Rightarrow> Inr (st'\<lparr>tasks := (tasks st')[i := Idle],
                           returned := returned st' @ [(i, s, result)]\<rparr>))"

text \<open>
  The session has answered: from \<^verbatim>\<open>if not await problem.is_interesting(attempt)\<close> to the
  next suspension point or to the end of the call. The failed assertion
  \<^verbatim>\<open>assert retries <= 100\<close> leaves through the \<^verbatim>\<open>finally\<close> block as an exception.
\<close>

definition after_probe ::
  "(bytes \<Rightarrow> bool) \<Rightarrow> bytes \<Rightarrow> region list \<Rightarrow> nat \<Rightarrow> bytes \<Rightarrow> bytes \<Rightarrow> bool \<Rightarrow> nat
     \<Rightarrow> pass_state \<Rightarrow> error + pass_state" where
  "after_probe oracle initial matching_regions i s attempt is_merging retries st =
     (let (interesting, problem') = is_interesting oracle attempt (problem st);
          st1 = st\<lparr>problem := problem'\<rparr>
      in if \<not> interesting then return_result i s is_merging False st1
         else if replace initial matching_regions (replacements st1) i s = attempt
         then return_result i s is_merging True
                (st1\<lparr>replacements := (replacements st1)[i := s]\<rparr>)
         else
           (let st2 = (if \<not> is_merging
                       then st1\<lparr>current_merge_attempts := current_merge_attempts st1 + 1\<rparr>
                       else st1);
                retries' = retries + 1
            in if retries' \<le> 100
               then Inr (loop_head initial matching_regions i s True retries' st2)
               else Inl AssertionError))"

text \<open>One scheduling step. An event that does not fit the task's place changes nothing.\<close>

definition step ::
  "(bytes \<Rightarrow> bool) \<Rightarrow> bytes \<Rightarrow> region list \<Rightarrow> pass_state \<Rightarrow> event \<Rightarrow> error + pass_state" where
  "step oracle initial matching_regions st ev =
     (case ev of
        Propose i s \<Rightarrow>
          (if i < length (tasks st) \<and> tasks st ! i = Idle
           then Inr (loop_head initial matching_regions i s False 0 st)
           else Inr st)
      | Wake i \<Rightarrow>
          (if i < length (tasks st) then
             (case tasks st ! i of
                Sleeping s \<Rightarrow> Inr (loop_head initial matching_regions i s False 0 st)
              | _ \<Rightarrow> Inr st)
           else Inr st)
      | Answer i \<Rightarrow>
          (if i < length (tasks st) then
             (case tasks st ! i of
                Probing s attempt is_merging retries \<Rightarrow>
                  after_probe oracle initial matching_regions i s attempt is_merging retries st
              | _ \<Rightarrow> Inr st)
           else Inr st))"

text \<open>
  A schedule is a list of events. An exception that \<^verbatim>\<open>is_interesting\<close> raises goes
  through the sub-pass (none of the module's sub-passes catches \<^verbatim>\<open>AssertionError\<close>),
  leaves the nursery and ends the pass: the run stops with it.
\<close>

fun run ::
  "(bytes \<Rightarrow> bool) \<Rightarrow> bytes \<Rightarrow> region list \<Rightarrow> pass_state \<Rightarrow> event list \<Rightarrow> error + pass_state" where
  "run oracle initial matching_regions st [] = Inr st"
| "run oracle initial matching_regions st (ev # evs) =
     (case step oracle initial matching_regions st ev of
        Inl e \<Rightarrow> Inl e
      | Inr st' \<Rightarrow> run oracle initial matching_regions st' evs)"

text \<open>The state in which the nursery is opened.\<close>

definition pass_start :: "bytes \<Rightarrow> region list \<Rightarrow> pass_state" where
  "pass_start initial matching_regions =
     \<lparr>problem = new_session initial,
      replacements = initial_replacements initial matching_regions,
      current_merge_attempts = 0,
      tasks = replicate (length matching_regions) Idle,
      returned = []\<rparr>"

text \<open>
  The reconstruction of the candidate from the snapshot and the slots, and the statement
  that it is the session's current test case.
\<close>

definition reconstruction :: "bytes \<Rightarrow> region list \<Rightarrow> bytes list \<Rightarrow> nat \<Rightarrow> bytes" where
  "reconstruction initial matching_regions slots i =
     replace initial matching_regions slots i (slots ! i)"

definition reconstructed :: "bytes \<Rightarrow> region list \<Rightarrow> pass_state \<Rightarrow> bool" where
  "reconstructed initial matching_regions st =
     (\<forall>i < length matching_regions.
        reconstruction initial matching_regions (replacements st) i
          = current_test_case (problem st))"



definition conflicts ::
  "(bytes \<Rightarrow> bool) \<Rightarrow> bytes \<Rightarrow> region list \<Rightarrow> pass_state \<Rightarrow> event \<Rightarrow> bool" where
  "conflicts oracle initial matching_regions st ev =
     (case ev of
        Answer i \<Rightarrow>
          i < length (tasks st) \<and>
          (case tasks st ! i of
             Probing s attempt is_merging retries \<Rightarrow>
               oracle attempt \<and> replace initial matching_regions (replacements st) i s \<noteq> attempt
           | _ \<Rightarrow> False)
      | _ \<Rightarrow> False)"

text \<open>The retry counters of all tasks that wait for the session are at most \<open>n\<close>.\<close>

definition retries_at_most :: "nat \<Rightarrow> pass_state \<Rightarrow> bool" where
  "retries_at_most n st =
     list_all (\<lambda>t. case t of Probing s attempt is_merging retries \<Rightarrow> retries \<le> n | _ \<Rightarrow> True)
       (tasks st)"


subsection \<open>A schedule with a race\<close>

text \<open>
  The candidate \<^verbatim>\<open>11 22\<close> with the pattern \<^verbatim>\<open>[0-9]+\<close> has the regions \<open>(0, 2)\<close> and
  \<open>(3, 5)\<close>; the oracle accepts every candidate. The states below are reached when the
  sub-pass of region \<open>1\<close> proposes \<^verbatim>\<open>2\<close> alone (proposed, then committed), and when region
  \<open>0\<close> proposes \<^verbatim>\<open>1\<close> first and is answered last (before and after that answer). In the
  last state task \<open>0\<close> waits with a stale attempt and its retry counter at \<open>100\<close>.
\<close>

definition race_regions :: "region list" where
  "race_regions = [(0, 2), (3, 5)]"



definition race_before :: pass_state where
  "race_before =
     \<lparr>problem = \<lparr>current_test_case = ''11 2'', probes = [(''11 2'', True)]\<rparr>,
      replacements = [''11'', ''2''],
      current_merge_attempts = 0,
      tasks = [Probing ''1'' ''1 22'' False 0, Idle],
      returned = [(1, ''2'', True)]\<rparr>"

definition race_state :: pass_state where
  "race_state =
     \<lparr>problem = \<lparr>current_test_case = ''1 22'', probes = [(''11 2'', True), (''1 22'', True)]\<rparr>,
      replacements = [''11'', ''2''],
      current_merge_attempts = 1,
      tasks = [Probing ''1'' ''1 2'' True 1, Idle],
      returned = [(1, ''2'', True)]\<rparr>"

definition capped_state :: pass_state where
  "capped_state = race_state\<lparr>tasks := [Probing ''1'' ''1 22'' True 100, Idle]\<rparr>"

section \<open>Properties of the Substring format\<close>

lemma startswith_append: "startswith (p @ m) p"
  by (simp add: startswith_def)

lemma endswith_append: "endswith (m @ s) s"
  by (simp add: endswith_def)

lemma Substring_parse_dumps:
  "Substring_parse self (Substring_dumps self m) = Inr m"
proof -
  have "startswith (prefix self @ m @ suffix self) (prefix self)"
    by (rule startswith_append)
  moreover have "endswith (prefix self @ m @ suffix self) (suffix self)"
    using endswith_append [of "prefix self @ m" "suffix self"] by simp
  ultimately show ?thesis
    by (simp add: Substring_parse_def Substring_dumps_def slice_def)
qed

lemma Substring_split:
  assumes "startswith x p" and "endswith x s" and "length p + length s \<le> length x"
  shows "p @ slice x (length p) (length x - length s) @ s = x"
proof -
  let ?n = "length x - length s"
  have p: "take (length p) x = p" using assms(1) by (simp add: startswith_def)
  have s: "drop ?n x = s" using assms(2) by (simp add: endswith_def)
  have le: "length p \<le> ?n" using assms(3) by simp
  have "take ?n x = take (length p) x @ slice x (length p) ?n"
    using le by (metis slice_def le_add_diff_inverse take_add)
  then have "x = p @ slice x (length p) ?n @ s"
    using p s by (metis append.assoc append_take_drop_id)
  then show ?thesis by simp
qed

text \<open>
  Claim C3 where prefix and suffix do not overlap. An input that does not start with the
  prefix or does not end with the suffix makes \<^verbatim>\<open>parse\<close> raise \<^verbatim>\<open>ParseError\<close>; an input
  that does both is parsed, and where the input is at least as long as prefix and suffix
  together (it has the form \<open>prefix @ m @ suffix\<close>) \<^verbatim>\<open>dumps\<close> gives the input back.
\<close>

theorem Substring_roundtrip_nonoverlapping:
  "(startswith x (prefix self) \<and> endswith x (suffix self) \<and>
      length (prefix self) + length (suffix self) \<le> length x
      \<longrightarrow> Substring_roundtrip self x = Inr x)
   \<and> (startswith x (prefix self) \<and> endswith x (suffix self)
      \<longrightarrow> (\<exists>y. Substring_parse self x = Inr y))
   \<and> (\<not> (startswith x (prefix self) \<and> endswith x (suffix self))
      \<longrightarrow> Substring_parse self x = Inl ParseError)"
proof (intro conjI impI)
  assume a: "startswith x (prefix self) \<and> endswith x (suffix self) \<and>
      length (prefix self) + length (suffix self) \<le> length x"
  then have "prefix self @ slice x (length (prefix self)) (length x - length (suffix self))
      @ suffix self = x"
    by (simp add: Substring_split)
  with a show "Substring_roundtrip self x = Inr x"
    by (simp add: Substring_roundtrip_def Substring_parse_def Substring_dumps_def)
next
  assume "startswith x (prefix self) \<and> endswith x (suffix self)"
  then show "\<exists>y. Substring_parse self x = Inr y"
    by (simp add: Substring_parse_def)
next
  assume "\<not> (startswith x (prefix self) \<and> endswith x (suffix self))"
  then show "Substring_parse self x = Inl ParseError"
    by (simp add: Substring_parse_def)
qed

theorem Substring_roundtrip_nonoverlapping_witness:
  "startswith ''(12)'' ''('' \<and> endswith ''(12)'' '')''
   \<and> Substring_parse \<lparr>prefix = ''('', suffix = '')''\<rparr> ''(12)'' = Inr ''12''
   \<and> Substring_roundtrip \<lparr>prefix = ''('', suffix = '')''\<rparr> ''(12)'' = Inr ''(12)''
   \<and> Substring_parse \<lparr>prefix = ''('', suffix = '')''\<rparr> ''12)'' = Inl ParseError"
  using Substring_roundtrip_nonoverlapping
    [of "''(12)''" "\<lparr>prefix = ''('', suffix = '')''\<rparr>"]
    Substring_roundtrip_nonoverlapping
    [of "''12)''" "\<lparr>prefix = ''('', suffix = '')''\<rparr>"]
  by (simp add: startswith_def endswith_def Substring_parse_def slice_def)

text \<open>
  Claim C3 where prefix and suffix overlap in the input: with prefix \<^verbatim>\<open>a\<close> and suffix
  \<^verbatim>\<open>a\<close> the input \<^verbatim>\<open>a\<close> starts with the prefix and ends with the suffix, \<^verbatim>\<open>parse\<close>
  does not raise but returns the empty string, and \<^verbatim>\<open>dumps\<close> of it is \<^verbatim>\<open>aa\<close>.
\<close>

theorem Substring_roundtrip_overlap:
  "startswith ''a'' (prefix \<lparr>prefix = ''a'', suffix = ''a''\<rparr>)
   \<and> endswith ''a'' (suffix \<lparr>prefix = ''a'', suffix = ''a''\<rparr>)
   \<and> Substring_parse \<lparr>prefix = ''a'', suffix = ''a''\<rparr> ''a'' = Inr ''''
   \<and> Substring_roundtrip \<lparr>prefix = ''a'', suffix = ''a''\<rparr> ''a'' = Inr ''aa''
   \<and> Substring_roundtrip \<lparr>prefix = ''a'', suffix = ''a''\<rparr> ''a'' \<noteq> Inr ''a''"
  by (simp add: startswith_def endswith_def Substring_roundtrip_def Substring_parse_def
      Substring_dumps_def slice_def)

section \<open>Properties of the numeric shrinker\<close>

lemma is_interesting_eq:
  "is_interesting oracle c p = (r, p') \<longleftrightarrow>
     r = oracle c \<and> p' = p\<lparr>current_test_case := (if oracle c then c else current_test_case p),
                          probes := probes p @ [(c, oracle c)]\<rparr>"
  by (auto simp: is_interesting_def)

lemma reduce_integer_round_result:
  "reduce_integer_round oracle lo hi p =
     (let mid = (lo + hi) div 2;
          r1 = oracle mid;
          hi1 = (if r1 then mid else hi);
          lo1 = (if r1 then lo else mid);
          r2 = oracle (hi1 - 1);
          hi2 = (if r2 then hi1 - 1 else hi1);
          r3 = oracle (lo1 + 1)
      in (r3, if r3 then lo1 else lo1 + 1, hi2,
          \<lparr>current_test_case =
             (if r3 then lo1 + 1 else if r2 then hi1 - 1 else if r1 then mid
              else current_test_case p),
           probes = probes p @ [(mid, r1), (hi1 - 1, r2), (lo1 + 1, r3)]\<rparr>))"
  by (simp add: reduce_integer_round_def is_interesting_def Let_def)

lemma reduce_integer_round_inv:
  assumes round: "reduce_integer_round oracle lo hi p = (stop, lo', hi', p')"
    and go: "lo + 1 < hi"
    and inv: "shrink_inv oracle n lo hi p"
  shows "if stop
         then current_test_case p' = lo' + 1 \<and> lo' + 1 \<le> n \<and> (lo', False) \<in> set (probes p')
              \<and> (\<forall>x. (x, True) \<in> set (probes p') \<longrightarrow> x \<le> n)
         else shrink_inv oracle n lo' hi' p'"
proof -
  define mid where "mid = (lo + hi) div 2"
  define r1 where "r1 = oracle mid"
  define hi1 where "hi1 = (if r1 then mid else hi)"
  define lo1 where "lo1 = (if r1 then lo else mid)"
  define r2 where "r2 = oracle (hi1 - 1)"
  define hi2 where "hi2 = (if r2 then hi1 - 1 else hi1)"
  define r3 where "r3 = oracle (lo1 + 1)"
  from inv have lo: "0 \<le> lo" "hi \<le> n" "\<not> oracle lo" "(lo, False) \<in> set (probes p)"
    and cur: "current_test_case p = hi"
    and acc: "\<forall>x. (x, True) \<in> set (probes p) \<longrightarrow> x \<le> n"
    by (simp_all add: shrink_inv_def)
  have mid: "lo < mid" "mid < hi" using go by (auto simp: mid_def)
  have res: "stop = r3" "lo' = (if r3 then lo1 else lo1 + 1)" "hi' = hi2"
    "current_test_case p' = (if r3 then lo1 + 1 else if r2 then hi1 - 1 else if r1 then mid
        else current_test_case p)"
    "probes p' = probes p @ [(mid, r1), (hi1 - 1, r2), (lo1 + 1, r3)]"
    using round unfolding reduce_integer_round_result
    by (auto simp: Let_def mid_def r1_def hi1_def lo1_def r2_def hi2_def r3_def)
  have lo1: "0 \<le> lo1" "lo1 < hi1" "hi1 \<le> n" "\<not> oracle lo1"
    using lo mid by (auto simp: lo1_def hi1_def r1_def)
  have lo1_probed: "(lo1, False) \<in> set (probes p')"
    using lo(4) by (auto simp: res(5) lo1_def r1_def)
  have "hi1 - 1 \<noteq> lo1" if r2 using that lo1(4) by (auto simp: r2_def)
  then have hi2: "lo1 < hi2" "hi2 \<le> n" using lo1 by (auto simp: hi2_def)
  have cur2: "\<not> r3 \<Longrightarrow> current_test_case p' = hi2"
    using cur by (auto simp: res(4) hi2_def hi1_def)
  have acc': "\<forall>x. (x, True) \<in> set (probes p') \<longrightarrow> x \<le> n"
    using acc mid lo(2) lo1 hi2 by (auto simp: res(5) hi1_def)
  show ?thesis
  proof (cases r3)
    case True
    with res lo1_probed acc' hi2 show ?thesis by simp
  next
    case False
    then have "\<not> oracle (lo1 + 1)" by (simp add: r3_def)
    moreover have "(lo1 + 1, False) \<in> set (probes p')" using False by (simp add: res(5))
    moreover have "lo1 + 1 = hi2 \<longrightarrow> (hi2 - 1, False) \<in> set (probes p')"
      using lo1_probed by auto
    ultimately show ?thesis
      using False res(1,2,3) cur2 acc' hi2 lo1(1) by (simp add: shrink_inv_def)
  qed
qed

lemma reduce_integer_loop_result:
  "shrink_inv f n lo hi p \<Longrightarrow>
   shrink_result n (reduce_integer_loop f lo hi p)"
proof (induction f lo hi p rule: reduce_integer_loop.induct)
  case (1 f lo hi p)
  show ?case
  proof (cases "lo + 1 < hi")
    case False
    with "1.prems" have "lo = hi \<or> lo = hi - 1" by (auto simp: shrink_inv_def)
    then have "current_test_case p = 0 \<or> (current_test_case p - 1, False) \<in> set (probes p)"
      using "1.prems" by (auto simp: shrink_inv_def)
    with False "1.prems" show ?thesis
      by (simp add: reduce_integer_loop.simps [of f lo hi p] shrink_inv_def shrink_result_def)
  next
    case True
    obtain stop lo' hi' p' where round: "reduce_integer_round f lo hi p = (stop, lo', hi', p')"
      by (cases "reduce_integer_round f lo hi p") auto
    note inv = reduce_integer_round_inv [OF round True "1.prems"]
    show ?thesis
    proof (cases stop)
      case d: True
      with inv round True show ?thesis
        by (auto simp: reduce_integer_loop.simps [of f lo hi p] shrink_result_def)
    next
      case d: False
      with inv have "shrink_inv f n lo' hi' p'" by simp
      from "1.IH" [OF True round [symmetric] _ _ _ this] d
      have "shrink_result n (reduce_integer_loop f lo' hi' p')" by simp
      with round True d show ?thesis
        by (simp add: reduce_integer_loop.simps [of f lo hi p])
    qed
  qed
qed

text \<open>
  Claim C2. For every oracle (a function of the candidate) and every initial candidate
  \<open>n \<ge> 0\<close>, \<^verbatim>\<open>reduce_integer\<close> returns; no value it had accepted is larger than \<open>n\<close>;
  and the value it leaves as the current test case is \<open>0\<close> or a value \<open>v\<close> such that
  \<open>v - 1\<close> was probed and reported not interesting.
\<close>

theorem reduce_integer_minimal:
  "0 \<le> n \<Longrightarrow>
   \<exists>p'. reduce_integer oracle (new_session n) = Inr p'
     \<and> current_test_case p' \<le> n
     \<and> (\<forall>x. (x, True) \<in> set (probes p') \<longrightarrow> x \<le> n)
     \<and> (current_test_case p' = 0 \<or> (current_test_case p' - 1, False) \<in> set (probes p'))"
proof (cases "oracle 0")
  case True
  assume "0 \<le> n"
  with True show ?thesis
    by (simp add: reduce_integer_def new_session_def is_interesting_def)
next
  case False
  assume n: "0 \<le> n"
  let ?p0 = "snd (is_interesting oracle 0 (new_session n))"
  from False n have "shrink_inv oracle n 0 n ?p0"
    by (simp add: shrink_inv_def is_interesting_def new_session_def)
  then have "shrink_result n (reduce_integer_loop oracle 0 n ?p0)"
    by (rule reduce_integer_loop_result)
  moreover from False n have
    "reduce_integer oracle (new_session n) = Inr (reduce_integer_loop oracle 0 n ?p0)"
    by (simp add: reduce_integer_def new_session_def is_interesting_def)
  ultimately show ?thesis by (simp add: shrink_result_def)
qed

lemma reduce_example:
  "reduce_integer (\<lambda>x. 42 \<le> x) (new_session 1000) =
     Inr \<lparr>current_test_case = 42, probes = [(0, False), (500, True), (499, True), (1, False), (250, True),
        (249, True), (2, False), (125, True), (124, True), (3, False), (63, True), (62, True),
        (4, False), (33, False), (61, True), (34, False), (47, True), (46, True), (35, False),
        (40, False), (45, True), (41, False), (43, True), (42, True), (42, True)]\<rparr>"
  by code_simp

text \<open>Claim C2 on the oracle \<open>42 \<le> x\<close> and the initial candidate \<open>1000\<close>.\<close>

theorem reduce_integer_minimal_witness:
  "(0::int) \<le> 1000
   \<and> (\<exists>p'. reduce_integer (\<lambda>x. 42 \<le> x) (new_session 1000) = Inr p'
         \<and> current_test_case p' = 42 \<and> (41, False) \<in> set (probes p')
         \<and> (1000, True) \<notin> set (probes p'))"
  using reduce_integer_minimal [of 1000 "\<lambda>x. 42 \<le> x"]
  by (simp add: reduce_example)

section \<open>Properties of the integer format\<close>




























section \<open>Properties of expression folding\<close>

lemma split_example:
  "split_expression ''01 + 1'' = Some (''01'', CHR ''+'', ''1'')"
  "split_expression ''1 . 2'' = Some (''1'', CHR ''.'', ''2'')"
  "split_expression ''1 / 0'' = Some (''1'', CHR ''/'', ''0'')"
  "split_expression ''123 + 456'' = Some (''123'', CHR ''+'', ''456'')"
  by code_simp+

lemma py_eval_example:
  "py_eval lim true_div (''01'', CHR ''+'', ''1'') = Inl SyntaxError"
  "py_eval lim true_div (''1'', CHR ''.'', ''2'') = Inl SyntaxError"
  "py_eval 4300 true_div (''1'', CHR ''/'', ''0'') = Inl ZeroDivisionError"
  by (simp_all add: py_eval_def literal_ok_def decimal_value_def digit_value_def
      too_many_digits_def)

text \<open>
  Claim C5 at the region \<^verbatim>\<open>01 + 1\<close>, which the pattern matches: \<^verbatim>\<open>eval\<close> raises
  \<^verbatim>\<open>SyntaxError\<close> for the literal \<^verbatim>\<open>01\<close>, the handler catches \<^verbatim>\<open>ArithmeticError\<close> only, and
  the exception leaves \<^verbatim>\<open>combine_expressions\<close>. The region \<^verbatim>\<open>1 . 2\<close>, which the range
  \<^verbatim>\<open>+-/\<close> of the class lets through, does the same.
\<close>

theorem combine_expressions_syntax_error:
  "split_expression ''01 + 1'' = Some (''01'', CHR ''+'', ''1'')
   \<and> combine_expressions max_str_digits true_div oracle (new_session ''01 + 1'')
       = Some (Inl SyntaxError)
   \<and> combine_expressions max_str_digits true_div oracle (new_session ''1 . 2'')
       = Some (Inl SyntaxError)"
  by (simp add: combine_expressions_def new_session_def split_example py_eval_example
      is_ArithmeticError_def)

text \<open>
  The part of the claim that the code keeps: a division by zero is swallowed and the
  session is left as it was, and a folded expression is proposed to the session.
\<close>

lemma combine_expressions_zero_division:
  "combine_expressions 4300 true_div oracle (new_session ''1 / 0'')
     = Some (Inr (new_session ''1 / 0''))"
  by (simp add: combine_expressions_def new_session_def split_example py_eval_example
      is_ArithmeticError_def)

lemma combine_expressions_folds:
  "combine_expressions 4300 true_div (\<lambda>_. True) (new_session ''123 + 456'')
     = Some (Inr \<lparr>current_test_case = ''579'', probes = [(''579'', True)]\<rparr>)"
  by code_simp

lemma combine_expressions_errors:
  "combine_expressions lim true_div oracle p = Some (Inl e) \<Longrightarrow>
   e = SyntaxError \<or> e = ValueError"
  by (auto simp: combine_expressions_def py_eval_def py_str_value_def py_str_def
      is_ArithmeticError_def Let_def
      split: option.splits sum.splits if_splits prod.splits py_value.splits)

section \<open>Properties of token renaming\<close>

lemma shortlex_less:
  "shortlex r < shortlex t \<longleftrightarrow> length r < length t \<or> (length r = length t \<and> r < t)"
  by (auto simp: shortlex_def less_prod_def)

lemma shortlex_ge: "shortlex r \<ge> shortlex t \<longleftrightarrow> \<not> shortlex r < shortlex t"
  by (simp add: not_less)

lemma matches_here_split:
  "matches_here t prev xs \<Longrightarrow> xs = t @ drop (length t) xs"
  by (metis append_take_drop_id matches_here_def startswith_def)

lemma matches_here_Nil [simp]: "\<not> matches_here t prev []"
  by (auto simp: matches_here_def startswith_def)

lemma word_sub_match:
  "matches_here t prev xs \<Longrightarrow>
   word_sub t r prev xs = r @ word_sub t r (Some (last t)) (drop (length t) xs)"
  by (simp add: word_sub.simps [of t r prev xs])

lemma word_sub_Nil [simp]: "word_sub t r prev [] = []"
  by (simp add: word_sub.simps [of t r prev "[]"])

lemma word_sub_Cons:
  "\<not> matches_here t prev (c # cs) \<Longrightarrow>
   word_sub t r prev (c # cs) = c # word_sub t r (Some c) cs"
  by (simp add: word_sub.simps [of t r prev "c # cs"])

lemma word_sub_length_le:
  "length r \<le> length t \<Longrightarrow> length (word_sub t r prev xs) \<le> length xs"
proof (induction t r prev xs rule: word_sub.induct)
  case (1 t r prev xs)
  show ?case
  proof (cases "matches_here t prev xs")
    case True
    from matches_here_split [OF True] have "length xs = length t + length (drop (length t) xs)"
      by (metis length_append)
    moreover from "1.IH"(1) [OF True "1.prems"]
    have "length (word_sub t r (Some (last t)) (drop (length t) xs)) \<le> length (drop (length t) xs)" .
    ultimately show ?thesis using True "1.prems"
      by (simp add: word_sub_match word_sub_Cons)
  next
    case False
    show ?thesis
    proof (cases xs)
      case Nil
      with False show ?thesis by (simp add: word_sub_match word_sub_Cons)
    next
      case (Cons c cs)
      with "1.IH"(2) [OF False Cons "1.prems"] False show ?thesis
        by (simp add: word_sub_match word_sub_Cons)
    qed
  qed
qed

lemma word_sub_length_less:
  "length r < length t \<Longrightarrow> word_search t prev xs \<Longrightarrow>
   length (word_sub t r prev xs) < length xs"
proof (induction t r prev xs rule: word_sub.induct)
  case (1 t r prev xs)
  show ?case
  proof (cases "matches_here t prev xs")
    case True
    from matches_here_split [OF True] have "length xs = length t + length (drop (length t) xs)"
      by (metis length_append)
    moreover have "length (word_sub t r (Some (last t)) (drop (length t) xs))
        \<le> length (drop (length t) xs)"
      using "1.prems"(1) by (intro word_sub_length_le) simp
    ultimately show ?thesis using True "1.prems"(1)
      by (simp add: word_sub_match word_sub_Cons)
  next
    case False
    show ?thesis
    proof (cases xs)
      case Nil
      with "1.prems"(2) show ?thesis by simp
    next
      case (Cons c cs)
      with False "1.prems"(2) have "word_search t (Some c) cs" by simp
      with "1.IH"(2) [OF False Cons "1.prems"(1)] False Cons show ?thesis
        by (simp add: word_sub_match word_sub_Cons)
    qed
  qed
qed

lemma word_sub_same_length_differs:
  "length r = length t \<Longrightarrow> r \<noteq> t \<Longrightarrow> word_search t prev xs \<Longrightarrow>
   word_sub t r prev xs \<noteq> xs"
proof (induction t r prev xs rule: word_sub.induct)
  case (1 t r prev xs)
  show ?case
  proof (cases "matches_here t prev xs")
    case True
    from matches_here_split [OF True] obtain ys where xs: "xs = t @ ys" by blast
    have "word_sub t r prev xs = r @ word_sub t r (Some (last t)) (drop (length t) xs)"
      using True by (simp add: word_sub_match word_sub_Cons)
    with xs "1.prems"(1,2) show ?thesis by (metis append_eq_append_conv)
  next
    case False
    show ?thesis
    proof (cases xs)
      case Nil
      with "1.prems"(3) show ?thesis by simp
    next
      case (Cons c cs)
      with False "1.prems"(3) have "word_search t (Some c) cs" by simp
      with "1.IH"(2) [OF False Cons "1.prems"(1,2)] False Cons show ?thesis
        by (simp add: word_sub_match word_sub_Cons)
    qed
  qed
qed

lemma word_sub_differs:
  assumes "word_search t prev xs" and "shortlex r < shortlex t"
  shows "word_sub t r prev xs \<noteq> xs"
proof (cases "length r < length t")
  case True
  from word_sub_length_less [OF True assms(1)] show ?thesis by auto
next
  case False
  with assms(2) have "length r = length t" "r \<noteq> t" by (auto simp: shortlex_less)
  then show ?thesis using assms(1) by (rule word_sub_same_length_differs)
qed

lemma can_replace_no_error:
  "word_search t None source \<Longrightarrow> \<exists>res. can_replace oracle t source r p = Inr res"
  using word_sub_differs [of t None source r]
  by (auto simp: can_replace_def Let_def shortlex_ge)

lemma find_first_value_no_error:
  "(\<And>x st. \<exists>res. f x st = Inr res) \<Longrightarrow> \<exists>res. find_first_value xs f st = Inr res"
proof (induction xs arbitrary: st)
  case Nil
  then show ?case by simp
next
  case (Cons x xs)
  from Cons.prems obtain b st' where fx: "f x st = Inr (b, st')" by (metis surj_pair)
  from Cons.IH [OF Cons.prems] obtain res where "find_first_value xs f st' = Inr res" by blast
  with fx show ?case by (cases b) auto
qed

lemma rename_targets_no_error:
  "\<exists>res. rename_targets oracle pool targets p = Inr res"
proof (induction targets arbitrary: p)
  case Nil
  then show ?case by simp
next
  case (Cons t targets)
  show ?case
  proof (cases "word_search t None (current_test_case p)")
    case False
    with Cons.IH [of p] show ?thesis by simp
  next
    case True
    have "\<exists>res. find_first_value pool (can_replace oracle t (current_test_case p)) p = Inr res"
      by (rule find_first_value_no_error) (rule can_replace_no_error [OF True])
    then obtain found p' where
      "find_first_value pool (can_replace oracle t (current_test_case p)) p = Inr (found, p')"
      by (metis surj_pair)
    with True Cons.IH [of p'] show ?thesis by simp
  qed
qed










text \<open>
  Claim C10. When the whole-word pattern of \<open>t\<close> has a match in the source and \<open>r\<close> is
  strictly shortlex-smaller than \<open>t\<close>, the substitution differs from the source; so
  \<^verbatim>\<open>can_replace\<close> never raises \<^verbatim>\<open>AssertionError\<close> for a token that has a match, and
  \<^verbatim>\<open>normalize_identifiers\<close> returns without an exception.
\<close>

theorem can_replace_assertion_holds:
  "(word_search t None source \<and> shortlex r < shortlex t \<longrightarrow> word_sub t r None source \<noteq> source)
   \<and> (word_search t None source \<longrightarrow> can_replace oracle t source r p \<noteq> Inl AssertionError)
   \<and> (\<exists>res. normalize_identifiers finditer oracle p = Inr res)"
proof (intro conjI impI)
  assume "word_search t None source \<and> shortlex r < shortlex t"
  then show "word_sub t r None source \<noteq> source" by (simp add: word_sub_differs)
next
  assume "word_search t None source"
  from can_replace_no_error [OF this] obtain res where
    "can_replace oracle t source r p = Inr res" by blast
  then show "can_replace oracle t source r p \<noteq> Inl AssertionError" by simp
next
  show "\<exists>res. normalize_identifiers finditer oracle p = Inr res"
    by (simp add: normalize_identifiers_def Let_def rename_targets_no_error)
qed

lemma rename_example:
  "word_search ''ab'' None ''ab + c''"
  "word_sub ''ab'' ''a'' None ''ab + c'' = ''a + c''"
  "can_replace (\<lambda>_. True) ''ab'' ''ab + c'' ''a'' (new_session ''ab + c'')
     = Inr (True, \<lparr>current_test_case = ''a + c'', probes = [(''a + c'', True)]\<rparr>)"
  "can_replace (\<lambda>_. True) ''ab'' ''ab + c'' ''abc'' (new_session ''ab + c'')
     = Inr (False, new_session ''ab + c'')"
  "shortlex ''a'' < shortlex ''ab''"
  "\<not> shortlex ''abc'' < shortlex ''ab''"
  by code_simp+



text \<open>Claim C10 on the token \<^verbatim>\<open>ab\<close> in \<^verbatim>\<open>ab + c\<close>, with the replacement \<^verbatim>\<open>a\<close>.\<close>

theorem can_replace_assertion_holds_witness:
  "word_search ''ab'' None ''ab + c'' \<and> shortlex ''a'' < shortlex ''ab''
   \<and> word_sub ''ab'' ''a'' None ''ab + c'' = ''a + c''
   \<and> word_sub ''ab'' ''a'' None ''ab + c'' \<noteq> ''ab + c''
   \<and> can_replace (\<lambda>_. True) ''ab'' ''ab + c'' ''a'' (new_session ''ab + c'')
       \<noteq> Inl AssertionError"
  using can_replace_assertion_holds [of "''ab''" "''ab + c''" "''a''" "\<lambda>_. True"
      "new_session ''ab + c''"]
    rename_example
  by simp

section \<open>Properties of the region scan\<close>

lemma collect_regions_star_no_result:
  assumes "collect_regions search tc i acc = Some rs"
  shows "\<not> (search = search_digits_star \<and> tc = ''a'' \<and> i = 0)"
proof (rule collect_regions.raw_induct
    [OF _ assms, where P = "\<lambda>search tc i acc rs. \<not> (search = search_digits_star \<and> tc = ''a'' \<and> i = 0)"])
  fix collect :: "searcher \<Rightarrow> bytes \<Rightarrow> nat \<Rightarrow> region list \<Rightarrow> region list option"
    and search tc i acc rs
  assume IH: "\<And>s t j a y. collect s t j a = Some y \<Longrightarrow>
      \<not> (s = search_digits_star \<and> t = ''a'' \<and> j = 0)"
    and eq: "(if i < length tc
        then case search tc i of None \<Rightarrow> Some acc
          | Some (u, v) \<Rightarrow> collect search tc v (acc @ [(u, v)])
        else Some acc) = Some rs"
  show "\<not> (search = search_digits_star \<and> tc = ''a'' \<and> i = 0)"
  proof
    assume a: "search = search_digits_star \<and> tc = ''a'' \<and> i = 0"
    then have "search tc i = Some (0, 0)"
      by (simp add: search_digits_star_def is_digit_def)
    with eq a have "collect search_digits_star ''a'' 0 (acc @ [(0, 0)]) = Some rs"
      by simp
    from IH [OF this] show False by simp
  qed
qed

lemma collect_regions_total:
  assumes ok: "span_ok search tc" and ne: "nonempty_matches search tc"
  shows "\<exists>rs. collect_regions search tc i acc = Some rs"
proof (induction "length tc - i" arbitrary: i acc rule: less_induct)
  case less
  show ?case
  proof (cases "i < length tc")
    case False
    then show ?thesis by (simp add: collect_regions.simps)
  next
    case True
    show ?thesis
    proof (cases "search tc i")
      case None
      with True show ?thesis by (simp add: collect_regions.simps)
    next
      case (Some r)
      obtain u v where r: "r = (u, v)" by (cases r)
      from Some r ok have "i \<le> u" "v \<le> length tc" by (auto simp: span_ok_def)
      moreover from Some r ne have "u < v" by (auto simp: nonempty_matches_def)
      ultimately have "length tc - v < length tc - i" using True by simp
      from less [OF this] obtain rs where "collect_regions search tc v (acc @ [(u, v)]) = Some rs"
        by blast
      with True Some r show ?thesis by (simp add: collect_regions.simps)
    qed
  qed
qed

lemma collect_regions_resumed:
  assumes "collect_regions search tc i acc = Some rs"
  shows "\<exists>new. rs = acc @ new \<and> resumed search tc i new"
proof (rule collect_regions.raw_induct
    [OF _ assms, where P = "\<lambda>search tc i acc rs. \<exists>new. rs = acc @ new \<and> resumed search tc i new"])
  fix collect :: "searcher \<Rightarrow> bytes \<Rightarrow> nat \<Rightarrow> region list \<Rightarrow> region list option"
    and search tc i acc rs
  assume IH: "\<And>s t j a y. collect s t j a = Some y \<Longrightarrow>
      \<exists>new. y = a @ new \<and> resumed s t j new"
    and eq: "(if i < length tc
        then case search tc i of None \<Rightarrow> Some acc
          | Some (u, v) \<Rightarrow> collect search tc v (acc @ [(u, v)])
        else Some acc) = Some rs"
  show "\<exists>new. rs = acc @ new \<and> resumed search tc i new"
  proof (cases "i < length tc")
    case False
    with eq show ?thesis by auto
  next
    case True
    show ?thesis
    proof (cases "search tc i")
      case None
      with True eq show ?thesis by auto
    next
      case (Some r)
      obtain u v where r: "r = (u, v)" by (cases r)
      with True Some eq have "collect search tc v (acc @ [(u, v)]) = Some rs" by simp
      from IH [OF this] obtain new where "rs = (acc @ [(u, v)]) @ new" "resumed search tc v new"
        by blast
      with Some r show ?thesis by (intro exI [of _ "(u, v) # new"]) simp
    qed
  qed
qed

lemma resumed_ascending:
  "span_ok search tc \<Longrightarrow> i \<le> length tc \<Longrightarrow> resumed search tc i rs \<Longrightarrow> ascending (length tc) i rs"
proof (induction rs arbitrary: i)
  case Nil
  then show ?case by simp
next
  case (Cons r rs)
  obtain u v where r: "r = (u, v)" by (cases r)
  with Cons.prems have s: "search tc i = Some (u, v)" and rest: "resumed search tc v rs" by auto
  from s Cons.prems(1) have b: "i \<le> u" "u \<le> v" "v \<le> length tc" by (auto simp: span_ok_def)
  with Cons.IH [OF Cons.prems(1) b(3) rest] r show ?case by simp
qed

lemma ascending_sorted_wrt:
  "ascending n i rs \<Longrightarrow> sorted_wrt (\<lambda>r r'. snd r \<le> fst r') rs \<and> (\<forall>r \<in> set rs. i \<le> fst r \<and> fst r \<le> snd r)"
proof (induction rs arbitrary: i)
  case Nil
  then show ?case by simp
next
  case (Cons r rs)
  obtain u v where r: "r = (u, v)" by (cases r)
  with Cons.prems have b: "i \<le> u" "u \<le> v" and asc: "ascending n v rs" by auto
  from Cons.IH [OF asc] have IH: "sorted_wrt (\<lambda>r r'. snd r \<le> fst r') rs"
    "\<forall>r \<in> set rs. v \<le> fst r \<and> fst r \<le> snd r" by auto
  with r b show ?case by auto
qed

lemma search_digits_span:
  assumes "search_digits tc i = Some (u, v)"
  shows "i \<le> u \<and> u < v \<and> v \<le> length tc"
proof -
  from assms obtain us where f: "filter (\<lambda>j. is_digit (tc ! j)) [i..<length tc] = u # us"
    and v: "v = u + length (takeWhile is_digit (drop u tc))"
    by (auto simp: search_digits_def split: list.splits)
  have "u \<in> set (filter (\<lambda>j. is_digit (tc ! j)) [i..<length tc])" by (simp add: f)
  then have u: "i \<le> u" "u < length tc" "is_digit (tc ! u)" by auto
  then have "drop u tc = tc ! u # drop (Suc u) tc" by (simp add: Cons_nth_drop_Suc)
  with u(3) have "0 < length (takeWhile is_digit (drop u tc))" by simp
  moreover have "length (takeWhile is_digit (drop u tc)) \<le> length (drop u tc)"
    by (rule length_takeWhile_le)
  ultimately show ?thesis using u v by auto
qed

lemma span_ok_search_digits: "span_ok search_digits tc"
  unfolding span_ok_def using search_digits_span by fastforce

lemma nonempty_matches_search_digits: "nonempty_matches search_digits tc"
  unfolding nonempty_matches_def using search_digits_span by fastforce

lemma search_example:
  "search_digits ''a12b345'' 0 = Some (1, 3)"
  "search_digits ''a12b345'' 3 = Some (4, 7)"
  by code_simp+

lemma collect_example:
  "collect_regions search_digits ''a12b345'' 0 [] = Some [(1, 3), (4, 7)]"
  by (simp add: collect_regions.simps [of _ _ 0] collect_regions.simps [of _ _ 3]
      collect_regions.simps [of _ _ 7] search_example)

text \<open>
  Claim C8 for the patterns that the module uses, none of which matches the empty string.
  When the pattern never matches the empty string in the candidate, the scan ends; the
  regions it collects are, in order, what the search returned when resumed at the end of
  the region before, and they are ascending and pairwise non-overlapping.
\<close>

theorem collect_regions_terminates:
  assumes "span_ok search tc" and "nonempty_matches search tc"
  shows "\<exists>rs. collect_regions search tc 0 [] = Some rs
           \<and> resumed search tc 0 rs \<and> ascending (length tc) 0 rs
           \<and> sorted_wrt (\<lambda>r r'. snd r \<le> fst r') rs"
proof -
  from collect_regions_total [OF assms] obtain rs where
    rs: "collect_regions search tc 0 [] = Some rs" by blast
  from collect_regions_resumed [OF rs] have res: "resumed search tc 0 rs" by simp
  from resumed_ascending [OF assms(1) _ res] have asc: "ascending (length tc) 0 rs" by simp
  from ascending_sorted_wrt [OF asc] rs res asc show ?thesis by blast
qed

text \<open>Claim C8 on the candidate \<^verbatim>\<open>a12b345\<close> with the pattern \<^verbatim>\<open>[0-9]+\<close>.\<close>

theorem collect_regions_terminates_witness:
  "span_ok search_digits ''a12b345'' \<and> nonempty_matches search_digits ''a12b345''
   \<and> collect_regions search_digits ''a12b345'' 0 [] = Some [(1, 3), (4, 7)]
   \<and> resumed search_digits ''a12b345'' 0 [(1, 3), (4, 7)]
   \<and> ascending (length ''a12b345'') 0 [(1, 3), (4, 7)]"
  using collect_regions_terminates [OF span_ok_search_digits nonempty_matches_search_digits,
      of "''a12b345''"]
    span_ok_search_digits [of "''a12b345''"] nonempty_matches_search_digits [of "''a12b345''"]
  by (simp add: collect_example)

lemma span_ok_search_digits_star: "span_ok search_digits_star tc"
proof -
  have "\<And>i. length (takeWhile is_digit (drop i tc)) \<le> length (drop i tc)"
    by (rule length_takeWhile_le)
  then show ?thesis
    unfolding span_ok_def search_digits_star_def
    by (auto split: if_splits) (metis add.commute le_diff_conv2)
qed

text \<open>
  Claim C8 with the pattern \<^verbatim>\<open>[0-9]*\<close>, which matches the empty string, on the candidate
  \<^verbatim>\<open>a\<close>: the search from \<open>0\<close> returns the span \<open>(0, 0)\<close>, the loop sets \<open>i = v = 0\<close>
  and never ends.
\<close>

theorem collect_regions_empty_match_diverges:
  "search_digits_star ''a'' 0 = Some (0, 0)
   \<and> collect_regions search_digits_star ''a'' 0 [] = None"
proof -
  have "search_digits_star ''a'' 0 = Some (0, 0)"
    by (simp add: search_digits_star_def is_digit_def)
  moreover have "collect_regions search_digits_star ''a'' 0 [] = None"
    using collect_regions_star_no_result [of search_digits_star "''a''" 0 "[]"]
    by (cases "collect_regions search_digits_star ''a'' 0 []") auto
  ultimately show ?thesis by simp
qed

section \<open>Properties of the reconstruction\<close>

lemma replace_parts_own:
  "replace_parts initial slots i (slots ! i) j prev rs = assemble_parts initial slots j prev rs"
  by (induction rs arbitrary: j prev) auto

lemma replace_parts_update:
  "i < length slots \<Longrightarrow>
   replace_parts initial slots i s j prev rs = assemble_parts initial (slots[i := s]) j prev rs"
  by (induction rs arbitrary: j prev) auto

lemma replace_own: "replace initial rs slots i (slots ! i) = assemble initial rs slots"
  by (simp add: replace_def assemble_def replace_parts_own)

lemma replace_update:
  "i < length slots \<Longrightarrow> replace initial rs slots i s = assemble initial rs (slots[i := s])"
  by (simp add: replace_def assemble_def replace_parts_update)

lemma slice_slice_drop:
  assumes "prev \<le> u" "u \<le> v"
  shows "slice initial prev u @ slice initial u v @ drop v initial = drop prev initial"
proof -
  have "slice initial u v @ drop v initial = drop u initial"
    using assms(2) unfolding slice_def
    by (metis add_diff_inverse_nat append_take_drop_id drop_drop leD add.commute)
  moreover have "slice initial prev u @ drop u initial = drop prev initial"
    using assms(1) unfolding slice_def
    by (metis add_diff_inverse_nat append_take_drop_id drop_drop leD add.commute)
  ultimately show ?thesis by simp
qed

lemma assemble_parts_initial:
  assumes "ascending n prev rs"
    and "\<forall>k < length rs. slots ! (j + k) = slice initial (fst (rs ! k)) (snd (rs ! k))"
  shows "concat (assemble_parts initial slots j prev rs) = drop prev initial"
  using assms
proof (induction rs arbitrary: j prev)
  case Nil
  then show ?case by simp
next
  case (Cons r rs)
  obtain u v where r: "r = (u, v)" by (cases r)
  from Cons.prems(1) r have b: "prev \<le> u" "u \<le> v" and asc: "ascending n v rs" by auto
  from Cons.prems(2) have here: "slots ! j = slice initial u v"
    using r by (auto dest: spec [of _ 0])
  have "\<forall>k < length rs. slots ! (Suc j + k) = slice initial (fst (rs ! k)) (snd (rs ! k))"
  proof (intro allI impI)
    fix k assume "k < length rs"
    then have "Suc k < length (r # rs)" by simp
    from Cons.prems(2) [rule_format, OF this] show
      "slots ! (Suc j + k) = slice initial (fst (rs ! k)) (snd (rs ! k))" by simp
  qed
  from Cons.IH [OF asc this] have "concat (assemble_parts initial slots (Suc j) v rs) = drop v initial" .
  with r here b show ?case by (simp add: slice_slice_drop)
qed

lemma assemble_initial:
  assumes "ascending n 0 rs"
  shows "assemble initial rs (initial_replacements initial rs) = initial"
proof -
  have "\<forall>k < length rs. initial_replacements initial rs ! (0 + k)
      = slice initial (fst (rs ! k)) (snd (rs ! k))"
    by (simp add: initial_replacements_def case_prod_beta)
  from assemble_parts_initial [OF assms this] show ?thesis
    by (simp add: assemble_def)
qed

lemma replace_parts_past:
  "i < j \<Longrightarrow>
   replace_parts initial slots i s j prev rs = assemble_parts initial slots j prev rs"
  by (induction rs arbitrary: j prev) auto

lemma replace_parts_pre_post:
  "j \<le> i \<Longrightarrow> i < j + length rs \<Longrightarrow>
   \<exists>pre post. \<forall>s. concat (replace_parts initial slots i s j prev rs) = pre @ s @ post"
proof (induction rs arbitrary: j prev)
  case Nil
  then show ?case by simp
next
  case (Cons r rs)
  obtain u v where r: "r = (u, v)" by (cases r)
  show ?case
  proof (cases "j = i")
    case True
    have "\<forall>s. concat (replace_parts initial slots i s j prev (r # rs))
        = slice initial prev u @ s @ concat (assemble_parts initial slots (j + 1) v rs)"
    proof
      fix s
      have "replace_parts initial slots i s (j + 1) v rs = assemble_parts initial slots (j + 1) v rs"
        using True by (simp add: replace_parts_past)
      then show "concat (replace_parts initial slots i s j prev (r # rs))
        = slice initial prev u @ s @ concat (assemble_parts initial slots (j + 1) v rs)"
        using True r by simp
    qed
    then show ?thesis by blast
  next
    case False
    with Cons.prems have "j + 1 \<le> i" "i < (j + 1) + length rs" by auto
    from Cons.IH [OF this] obtain pre post where
      pp: "\<forall>s. concat (replace_parts initial slots i s (j + 1) v rs) = pre @ s @ post"
      by blast
    have "\<forall>s. concat (replace_parts initial slots i s j prev (r # rs))
        = (slice initial prev u @ slots ! j @ pre) @ s @ post"
      using False r pp by simp
    then show ?thesis by blast
  qed
qed

text \<open>
  Claim C9. With the regions of the scan and the slots just initialised,
  \<^verbatim>\<open>replace(i, replacements[i])\<close> is \<open>initial\<close> for every region index \<open>i\<close>. With any
  slots, \<^verbatim>\<open>replace(i, s)\<close> is \<open>pre @ s @ post\<close> for a \<open>pre\<close> and a \<open>post\<close> that do
  not depend on \<open>s\<close>, and it is the candidate assembled from the slots with slot \<open>i\<close>
  set to \<open>s\<close>: the bytes between the regions and the sibling slots are as they were.
\<close>

theorem replace_reconstruction:
  "(span_ok search initial \<and> collect_regions search initial 0 [] = Some matching_regions
      \<and> i < length matching_regions
     \<longrightarrow> replace initial matching_regions (initial_replacements initial matching_regions) i
           (initial_replacements initial matching_regions ! i) = initial)
   \<and> (length slots = length matching_regions \<and> i < length matching_regions
     \<longrightarrow> (\<exists>pre post. \<forall>s. replace initial matching_regions slots i s = pre @ s @ post)
       \<and> (\<forall>s. replace initial matching_regions slots i s
               = assemble initial matching_regions (slots[i := s])))"
proof (intro conjI impI)
  assume a: "span_ok search initial \<and> collect_regions search initial 0 [] = Some matching_regions
      \<and> i < length matching_regions"
  then have "resumed search initial 0 matching_regions"
    using collect_regions_resumed [of search initial 0 "[]" matching_regions] by simp
  with a have "ascending (length initial) 0 matching_regions"
    using resumed_ascending [of search initial 0 matching_regions] by simp
  then show "replace initial matching_regions (initial_replacements initial matching_regions) i
           (initial_replacements initial matching_regions ! i) = initial"
    by (simp add: replace_own assemble_initial)
next
  assume "length slots = length matching_regions \<and> i < length matching_regions"
  then show "\<exists>pre post. \<forall>s. replace initial matching_regions slots i s = pre @ s @ post"
    using replace_parts_pre_post [of 0 i matching_regions initial slots 0]
    by (simp add: replace_def)
next
  assume "length slots = length matching_regions \<and> i < length matching_regions"
  then show "\<forall>s. replace initial matching_regions slots i s
               = assemble initial matching_regions (slots[i := s])"
    by (simp add: replace_update)
qed

text \<open>Claim C9 on the candidate \<^verbatim>\<open>a12b345\<close> with the pattern \<^verbatim>\<open>[0-9]+\<close>.\<close>

theorem replace_reconstruction_witness:
  "span_ok search_digits ''a12b345''
   \<and> collect_regions search_digits ''a12b345'' 0 [] = Some [(1, 3), (4, 7)]
   \<and> initial_replacements ''a12b345'' [(1, 3), (4, 7)] = [''12'', ''345'']
   \<and> replace ''a12b345'' [(1, 3), (4, 7)] [''12'', ''345''] 1 ''345'' = ''a12b345''
   \<and> replace ''a12b345'' [(1, 3), (4, 7)] [''12'', ''345''] 1 ''0'' = ''a12b0''
   \<and> assemble ''a12b345'' [(1, 3), (4, 7)] [''12'', ''0''] = ''a12b0''"
  using replace_reconstruction
    [of search_digits "''a12b345''" "[(1, 3), (4, 7)]" 1 "[''12'', ''345'']"]
    span_ok_search_digits [of "''a12b345''"]
  by (simp add: collect_example initial_replacements_def slice_def replace_def assemble_def)

section \<open>Properties of the region tasks\<close>

lemma loop_head_fields [simp]:
  "problem (loop_head initial rs i s m r st) = problem st"
  "replacements (loop_head initial rs i s m r st) = replacements st"
  "current_merge_attempts (loop_head initial rs i s m r st) = current_merge_attempts st"
  "returned (loop_head initial rs i s m r st) = returned st"
  "length (tasks (loop_head initial rs i s m r st)) = length (tasks st)"
  by (simp_all add: loop_head_def)

lemma finally_block_fields:
  assumes "finally_block m st = Inr st'"
  shows "problem st' = problem st" "replacements st' = replacements st" "tasks st' = tasks st"
    "returned st' = returned st"
  using assms by (auto simp: finally_block_def Let_def split: if_splits)

lemma return_result_fields:
  assumes "return_result i s m res st = Inr st'"
  shows "problem st' = problem st" "replacements st' = replacements st"
    "tasks st' = (tasks st)[i := Idle]"
  using assms finally_block_fields [of m st]
  by (auto simp: return_result_def split: sum.splits)

lemma return_result_state:
  "return_result i s m res st = Inr st' \<Longrightarrow>
   problem st' = problem st \<and> replacements st' = replacements st
     \<and> tasks st' = (tasks st)[i := Idle]"
  by (simp add: return_result_fields)

lemma is_interesting_fields [simp]:
  "fst (is_interesting oracle c p) = oracle c"
  "current_test_case (snd (is_interesting oracle c p)) = (if oracle c then c else current_test_case p)"
  "probes (snd (is_interesting oracle c p)) = probes p @ [(c, oracle c)]"
  by (simp_all add: is_interesting_def)

text \<open>The three outcomes of an answer, each as an equation.\<close>

lemma after_probe_rejected:
  "\<not> oracle attempt \<Longrightarrow>
   after_probe oracle initial rs i s attempt m r st
     = return_result i s m False (st\<lparr>problem := snd (is_interesting oracle attempt (problem st))\<rparr>)"
  by (simp add: after_probe_def is_interesting_def)

lemma after_probe_commit:
  "oracle attempt \<Longrightarrow> replace initial rs (replacements st) i s = attempt \<Longrightarrow>
   after_probe oracle initial rs i s attempt m r st
     = return_result i s m True
         (st\<lparr>problem := snd (is_interesting oracle attempt (problem st)),
             replacements := (replacements st)[i := s]\<rparr>)"
  by (simp add: after_probe_def is_interesting_def)

lemma after_probe_conflict:
  "oracle attempt \<Longrightarrow> replace initial rs (replacements st) i s \<noteq> attempt \<Longrightarrow>
   after_probe oracle initial rs i s attempt m r st
     = (if r + 1 \<le> 100
        then Inr (loop_head initial rs i s True (r + 1)
               (if \<not> m
                then st\<lparr>problem := snd (is_interesting oracle attempt (problem st)),
                        current_merge_attempts := current_merge_attempts st + 1\<rparr>
                else st\<lparr>problem := snd (is_interesting oracle attempt (problem st))\<rparr>))
        else Inl AssertionError)"
  by (simp add: after_probe_def is_interesting_def Let_def)




lemma reconstructed_assemble:
  "reconstructed initial rs st =
     (rs = [] \<or> assemble initial rs (replacements st) = current_test_case (problem st))"
  by (auto simp: reconstructed_def reconstruction_def replace_own)




lemmas machine_defs = pass_start_def new_session_def initial_replacements_def step_def
  loop_head_def after_probe_def is_interesting_def return_result_def finally_block_def
  replace_def slice_def Let_def


lemma race_run_before:
  "run (\<lambda>_. True) ''11 22'' race_regions (pass_start ''11 22'' race_regions)
         [Propose 0 ''1'', Propose 1 ''2'', Answer 1] = Inr race_before"
  by (simp add: race_before_def race_regions_def machine_defs)

lemma race_step:
  "step (\<lambda>_. True) ''11 22'' race_regions race_before (Answer 0) = Inr race_state"
  by (simp add: race_before_def race_state_def race_regions_def machine_defs)


lemma race_before_reconstructed:
  "reconstructed ''11 22'' race_regions race_before"
  by (simp add: reconstructed_assemble assemble_def race_before_def race_regions_def slice_def)


lemma run_append:
  "run oracle initial rs st (evs @ evs') =
     (case run oracle initial rs st evs of Inl e \<Rightarrow> Inl e | Inr st' \<Rightarrow> run oracle initial rs st' evs')"
  by (induction evs arbitrary: st) (auto split: sum.splits)

lemma retries_at_most_update:
  "retries_at_most n st \<Longrightarrow>
   (case t of Probing s attempt m r \<Rightarrow> r \<le> n | _ \<Rightarrow> True) \<Longrightarrow>
   tasks st' = (tasks st)[i := t] \<Longrightarrow> retries_at_most n st'"
  by (auto simp: retries_at_most_def list_all_iff dest!: set_update_subset_insert [THEN subsetD])

lemma loop_head_retries:
  "retries_at_most n st \<Longrightarrow> r \<le> n \<Longrightarrow> retries_at_most n (loop_head initial rs i s m r st)"
  by (rule retries_at_most_update [where t = "if \<not> m \<and> current_merge_attempts st > 0 then Sleeping s
        else Probing s (replace initial rs (replacements st) i s) m r" and i = i])
     (auto simp: loop_head_def)

lemma return_result_retries:
  "return_result i s m res st = Inr st' \<Longrightarrow> retries_at_most n st \<Longrightarrow> retries_at_most n st'"
  by (rule retries_at_most_update [where t = Idle and i = i])
     (auto dest: return_result_state)

lemma retries_at_most_tasks:
  "tasks st' = tasks st \<Longrightarrow> retries_at_most n st' = retries_at_most n st"
  by (simp add: retries_at_most_def)

lemma after_probe_retries:
  assumes "after_probe oracle initial rs i s attempt m r st = Inr st'"
    and "retries_at_most 100 st"
  shows "retries_at_most 100 st'"
proof (cases "oracle attempt")
  case False
  with assms(1) have "return_result i s m False
      (st\<lparr>problem := snd (is_interesting oracle attempt (problem st))\<rparr>) = Inr st'"
    by (simp add: after_probe_rejected)
  moreover have "retries_at_most 100 (st\<lparr>problem := snd (is_interesting oracle attempt (problem st))\<rparr>)"
    using assms(2) by (simp add: retries_at_most_def)
  ultimately show ?thesis by (rule return_result_retries)
next
  case True
  show ?thesis
  proof (cases "replace initial rs (replacements st) i s = attempt")
    case eq: True
    with True assms(1) have "return_result i s m True
         (st\<lparr>problem := snd (is_interesting oracle attempt (problem st)),
             replacements := (replacements st)[i := s]\<rparr>) = Inr st'"
      by (simp add: after_probe_commit)
    moreover have "retries_at_most 100 (st\<lparr>problem := snd (is_interesting oracle attempt (problem st)),
             replacements := (replacements st)[i := s]\<rparr>)"
      using assms(2) by (simp add: retries_at_most_def)
    ultimately show ?thesis by (rule return_result_retries)
  next
    case False
    with True assms(1) have le: "r + 1 \<le> 100"
      and st': "st' = loop_head initial rs i s True (r + 1)
               (if \<not> m
                then st\<lparr>problem := snd (is_interesting oracle attempt (problem st)),
                        current_merge_attempts := current_merge_attempts st + 1\<rparr>
                else st\<lparr>problem := snd (is_interesting oracle attempt (problem st))\<rparr>)"
      by (auto simp: after_probe_conflict split: if_splits)
    have "retries_at_most 100 (if \<not> m
                then st\<lparr>problem := snd (is_interesting oracle attempt (problem st)),
                        current_merge_attempts := current_merge_attempts st + 1\<rparr>
                else st\<lparr>problem := snd (is_interesting oracle attempt (problem st))\<rparr>)"
      using assms(2) by (simp add: retries_at_most_def)
    with le show ?thesis unfolding st' by (intro loop_head_retries)
  qed
qed

lemma step_retries:
  assumes "step oracle initial rs st ev = Inr st'" and "retries_at_most 100 st"
  shows "retries_at_most 100 st'"
proof (cases ev)
  case (Propose i s)
  with assms show ?thesis by (auto simp: step_def loop_head_retries split: if_splits)
next
  case (Wake i)
  with assms show ?thesis
    by (auto simp: step_def loop_head_retries split: if_splits task.splits)
next
  case (Answer i)
  with assms show ?thesis
    by (auto simp: step_def split: if_splits task.splits dest: after_probe_retries)
qed

lemma run_retries:
  "run oracle initial rs st evs = Inr st' \<Longrightarrow> retries_at_most 100 st \<Longrightarrow> retries_at_most 100 st'"
proof (induction evs arbitrary: st)
  case Nil
  then show ?case by simp
next
  case (Cons ev evs)
  then show ?case by (auto split: sum.splits dest: step_retries)
qed

lemma pass_start_retries: "retries_at_most n (pass_start initial rs)"
  by (simp add: retries_at_most_def pass_start_def list_all_iff)

text \<open>
  Claim C4. In every state that a schedule reaches from the start of the pass, the retry
  counter of every waiting task is at most \<open>100\<close>. A conflict below the cap makes the task
  retry the same proposal with the counter increased by one; a conflict at the cap raises
  \<^verbatim>\<open>AssertionError\<close>, which ends the run of the pass with that error instead of returning
  a result to the sub-pass.
\<close>

theorem retry_cap:
  "(run oracle initial matching_regions (pass_start initial matching_regions) evs = Inr st
      \<longrightarrow> retries_at_most 100 st)
   \<and> (i < length (tasks st0) \<and> tasks st0 ! i = Probing s attempt is_merging retries
        \<and> conflicts oracle initial matching_regions st0 (Answer i)
      \<longrightarrow> (retries < 100 \<longrightarrow>
             (\<exists>st'. step oracle initial matching_regions st0 (Answer i) = Inr st'
                \<and> tasks st' ! i
                    = Probing s (replace initial matching_regions (replacements st0) i s)
                        True (retries + 1)))
        \<and> (100 \<le> retries \<longrightarrow>
             step oracle initial matching_regions st0 (Answer i) = Inl AssertionError
             \<and> run oracle initial matching_regions st0 (Answer i # evs') = Inl AssertionError))"
proof (intro conjI impI)
  assume "run oracle initial matching_regions (pass_start initial matching_regions) evs = Inr st"
  then show "retries_at_most 100 st"
    using pass_start_retries by (rule run_retries)
next
  assume a: "i < length (tasks st0) \<and> tasks st0 ! i = Probing s attempt is_merging retries
        \<and> conflicts oracle initial matching_regions st0 (Answer i)"
    and r: "retries < 100"
  from a have c: "oracle attempt" "replace initial matching_regions (replacements st0) i s \<noteq> attempt"
    by (auto simp: conflicts_def)
  with a r show "\<exists>st'. step oracle initial matching_regions st0 (Answer i) = Inr st'
                \<and> tasks st' ! i
                    = Probing s (replace initial matching_regions (replacements st0) i s)
                        True (retries + 1)"
    by (simp add: step_def after_probe_conflict loop_head_def)
next
  assume a: "i < length (tasks st0) \<and> tasks st0 ! i = Probing s attempt is_merging retries
        \<and> conflicts oracle initial matching_regions st0 (Answer i)"
    and r: "100 \<le> retries"
  from a have c: "oracle attempt" "replace initial matching_regions (replacements st0) i s \<noteq> attempt"
    by (auto simp: conflicts_def)
  with a r show s: "step oracle initial matching_regions st0 (Answer i) = Inl AssertionError"
    by (simp add: step_def after_probe_conflict)
  then show "run oracle initial matching_regions st0 (Answer i # evs') = Inl AssertionError"
    by simp
qed

text \<open>Claim C4 on \<^verbatim>\<open>11 22\<close>: the first conflict of task \<open>0\<close>, and a conflict at the cap.\<close>

theorem retry_cap_witness:
  "run (\<lambda>_. True) ''11 22'' race_regions (pass_start ''11 22'' race_regions)
         [Propose 0 ''1'', Propose 1 ''2'', Answer 1] = Inr race_before
   \<and> retries_at_most 100 race_before
   \<and> conflicts (\<lambda>_. True) ''11 22'' race_regions race_before (Answer 0)
   \<and> step (\<lambda>_. True) ''11 22'' race_regions race_before (Answer 0) = Inr race_state
   \<and> tasks race_state ! 0 = Probing ''1'' ''1 2'' True 1
   \<and> conflicts (\<lambda>_. True) ''11 22'' race_regions capped_state (Answer 0)
   \<and> step (\<lambda>_. True) ''11 22'' race_regions capped_state (Answer 0) = Inl AssertionError
   \<and> run (\<lambda>_. True) ''11 22'' race_regions capped_state [Answer 0, Wake 1] = Inl AssertionError"
proof -
  have c1: "conflicts (\<lambda>_. True) ''11 22'' race_regions race_before (Answer 0)"
    by (simp add: conflicts_def race_before_def race_regions_def replace_def slice_def)
  have c2: "conflicts (\<lambda>_. True) ''11 22'' race_regions capped_state (Answer 0)"
    by (simp add: conflicts_def capped_state_def race_state_def race_regions_def replace_def
        slice_def)
  have t1: "0 < length (tasks race_before) \<and> tasks race_before ! 0 = Probing ''1'' ''1 22'' False 0"
    by (simp add: race_before_def)
  have t2: "0 < length (tasks capped_state)
      \<and> tasks capped_state ! 0 = Probing ''1'' ''1 22'' True 100"
    by (simp add: capped_state_def)
  show ?thesis
    using retry_cap [of "\<lambda>_. True" "''11 22''" race_regions
        "[Propose 0 ''1'', Propose 1 ''2'', Answer 1]" race_before 0 race_before
        "''1''" "''1 22''" False 0 "[Wake 1]"]
      retry_cap [of "\<lambda>_. True" "''11 22''" race_regions
        "[]" "pass_start ''11 22'' race_regions" 0 capped_state
        "''1''" "''1 22''" True 100 "[Wake 1]"]
      c1 c2 t1 t2 race_run_before race_step
    by (simp add: race_state_def)
qed










end
